theory Spec2Isabelle
  imports Main "HOL-Library.Sublist" "HOL-Library.Multiset"
begin

section \<open>Text primitives\<close>

text \<open>
  Python text is modelled as \<^typ>\<open>string\<close>, a list of 8-bit characters (the UTF-8
  bytes of the text). \<open>str.lower\<close> maps the ASCII capitals to their small letters; bytes
  of 128 and above (parts of non-ASCII code points) are left as they are, so the model
  is exact on ASCII text, which is what every keyword of the catalog consists of.
\<close>

definition lower_char :: "char \<Rightarrow> char" where
  "lower_char c =
     (let n = (of_char c :: nat) in if 65 \<le> n \<and> n \<le> 90 then char_of (n + 32) else c)"

definition lower :: "string \<Rightarrow> string" where
  "lower s = map lower_char s"

text \<open>
  \<open>any(kw in error_text for kw in keywords)\<close>: Python's \<open>in\<close> on strings is the
  test for a contiguous substring, \<^const>\<open>sublist\<close>.
\<close>

definition any_kw :: "string list \<Rightarrow> string \<Rightarrow> bool" where
  "any_kw keywords error_text = list_ex (\<lambda>kw. sublist kw error_text) keywords"

section \<open>Pattern catalog\<close>

text \<open>
  \<open>error_patterns\<close> of \<open>analyze_errors\<close>: a dict literal, iterated in the order it is
  written, hence an association list.
\<close>

definition error_patterns :: "(string \<times> string list) list" where
  "error_patterns =
    [(''Tone/Attitude'',
        [''tone'', ''attitude'', ''perspective'', ''viewpoint'', ''neutral'', ''negative'']),
     (''Context Misread'',
        [''context'', ''paragraph'', ''line'', ''section'', ''reread'', ''passage'']),
     (''Overthinking'',
        [''assumed'', ''overthought'', ''bias'', ''should be'', ''reasoning'']),
     (''Detail Missed'',
        [''missed'', ''overlooked'', ''didn't notice'', ''not stated'']),
     (''Question Misinterpretation'',
        [''misunderstood'', ''misinterpreted'', ''question'']),
     (''Structure Error'',
        [''main idea'', ''first sentence'', ''paragraph structure'']),
     (''Vocabulary'',
        [''word'', ''term'', ''phrase'', ''meaning'', ''empirical''])]"

section \<open>Classifier: \<open>analyze_errors\<close>\<close>

text \<open>
  A row of the data frame, with the two columns the classifier reads. The passage title
  is whatever value the cell holds (the classifier only stores it), so its type is a
  parameter. \<open>Why_I_Got_It_Wrong\<close> is \<open>None\<close> where pandas has a missing value
  (\<open>pd.isna\<close> is true) and \<open>Some\<close> of the text otherwise.
\<close>

record 'p row =
  Passage_Title :: 'p
  Why_I_Got_It_Wrong :: "string option"

text \<open>
  \<open>results = defaultdict(list)\<close>: a dict keeps its keys in the order of their first
  insertion, and \<open>results.items()\<close> is read in that order later, so the report is an
  association list. \<open>results[pattern].append(passage)\<close> creates the key with an empty
  list when it is new and appends to the key's list.
\<close>

type_synonym 'p report = "(string \<times> 'p list) list"

definition append_result :: "'p report \<Rightarrow> string \<Rightarrow> 'p \<Rightarrow> 'p report" where
  "append_result results pattern passage =
     (if pattern \<in> fst ` set results
      then map (\<lambda>(k, ps). if k = pattern then (k, ps @ [passage]) else (k, ps)) results
      else results @ [(pattern, [passage])])"

text \<open>The inner loop \<open>for pattern, keywords in error_patterns.items()\<close>.\<close>

fun scan_patterns ::
  "(string \<times> string list) list \<Rightarrow> string \<Rightarrow> 'p \<Rightarrow> 'p report \<Rightarrow> 'p report" where
  "scan_patterns [] error_text passage results = results"
| "scan_patterns ((pattern, keywords) # rest) error_text passage results =
     scan_patterns rest error_text passage
       (if any_kw keywords error_text then append_result results pattern passage
        else results)"

text \<open>
  The outer loop \<open>for _, row in df.iterrows()\<close>: a row with a missing explanation is
  skipped by \<open>continue\<close>; otherwise the text is lower-cased and tested against every
  category.
\<close>

fun analyze_rows :: "'p row list \<Rightarrow> 'p report \<Rightarrow> 'p report" where
  "analyze_rows [] results = results"
| "analyze_rows (r # rows) results =
     (case Why_I_Got_It_Wrong r of
        None \<Rightarrow> analyze_rows rows results
      | Some w \<Rightarrow>
          analyze_rows rows (scan_patterns error_patterns (lower w) (Passage_Title r) results))"

definition analyze_errors :: "'p row list \<Rightarrow> 'p report" where
  "analyze_errors df = analyze_rows df []"

section \<open>Report aggregator: \<open>top_errors\<close>\<close>

text \<open>
  \<open>sorted(error_report.items(), key=lambda x: len(x[1]), reverse=True)[:3]\<close>.
  Python's \<open>sorted\<close> is stable, and stays so under \<open>reverse=True\<close>: items with equal
  keys keep their original order. That is the stable insertion sort \<^const>\<open>sort_key\<close>
  on the negated length. The slice \<open>[:3]\<close> is \<^term>\<open>take 3\<close>.
\<close>

definition top_errors :: "'p report \<Rightarrow> 'p report" where
  "top_errors error_report =
     take 3 (sort_key (\<lambda>x. - int (length (snd x))) error_report)"

section \<open>The classification scenario\<close>

definition scenario_rows :: "string row list" where
  "scenario_rows =
    [\<lparr>Passage_Title = ''P1'',
      Why_I_Got_It_Wrong = Some ''The tone was clearly negative but I misread it''\<rparr>,
     \<lparr>Passage_Title = ''P2'',
      Why_I_Got_It_Wrong = Some ''I missed a key detail in paragraph 2''\<rparr>,
     \<lparr>Passage_Title = ''P3'', Why_I_Got_It_Wrong = None\<rparr>]"


section \<open>Reading the report\<close>

text \<open>
  \<open>error_report.get(pattern, [])\<close>: the sequence stored under a category, empty when
  the category is not a key of the report.
\<close>

definition entries :: "'p report \<Rightarrow> string \<Rightarrow> 'p list" where
  "entries results pattern = (case map_of results pattern of None \<Rightarrow> [] | Some ps \<Rightarrow> ps)"

text \<open>
  A row matches a category when its explanation is present and its lower-cased text
  contains one of the category's keywords: the condition under which the inner loop of
  \<open>analyze_errors\<close> appends.
\<close>

definition row_matches :: "string \<Rightarrow> 'p row \<Rightarrow> bool" where
  "row_matches pattern r =
     (case Why_I_Got_It_Wrong r of
        None \<Rightarrow> False
      | Some w \<Rightarrow>
          (case map_of error_patterns pattern of
             None \<Rightarrow> False
           | Some keywords \<Rightarrow> any_kw keywords (lower w)))"

definition missing_or_empty :: "'p row \<Rightarrow> bool" where
  "missing_or_empty r = (case Why_I_Got_It_Wrong r of None \<Rightarrow> True | Some w \<Rightarrow> w = [])"

section \<open>Loading the dataset\<close>

text \<open>
  \<open>pd.read_csv(uploaded_file)\<close> with its default settings reads a field as a missing
  value when its text is one of pandas' default NA strings, the empty field among
  them. From the other fields it infers the type of the column: a column whose fields
  all read as numbers holds the numbers, any other column holds the texts as they are.
  The reader that pandas has chosen for the column is the parameter \<open>parse\<close>, from the
  text of a field to the value of the cell (the identity for a column of text). A line
  of the file is given by the value of its \<open>Passage_Title\<close> cell and the text of its
  \<open>Why_I_Got_It_Wrong\<close> field; a row of the frame as read is the title with the value
  of the cell, \<open>None\<close> when it is missing.
\<close>

definition na_values :: "string list" where
  "na_values =
    ['''', ''#N/A'', ''#N/A N/A'', ''#NA'', ''-1.#IND'', ''-1.#QNAN'', ''-NaN'', ''-nan'',
     ''1.#IND'', ''1.#QNAN'', ''<NA>'', ''N/A'', ''NA'', ''NULL'', ''NaN'', ''None'',
     ''n/a'', ''nan'', ''null'']"

definition read_csv :: "(string \<Rightarrow> 'v) \<Rightarrow> ('p \<times> string) list \<Rightarrow> ('p \<times> 'v option) list" where
  "read_csv parse lines =
     map (\<lambda>(title, why). (title, if why \<in> set na_values then None else Some (parse why)))
         lines"

text \<open>\<open>df.dropna(subset=["Why_I_Got_It_Wrong"])\<close> keeps the rows whose cell is present.\<close>

definition dropna :: "('p \<times> 'v option) list \<Rightarrow> ('p \<times> 'v option) list" where
  "dropna df = filter (\<lambda>(title, why). why \<noteq> None) df"

text \<open>
  \<open>df["Why_I_Got_It_Wrong"].astype(str)\<close> turns every cell into text: a text stays as
  it is, a number is rendered (the field \<open>007\<close> read as a number becomes \<open>7\<close>, the
  field \<open>1\<close> in a column with a missing value becomes \<open>1.0\<close>). The rendering is the
  parameter \<open>str_of\<close>. A missing value would become the text \<open>nan\<close>.
\<close>

definition astype_str :: "('v \<Rightarrow> string) \<Rightarrow> ('p \<times> 'v option) list \<Rightarrow> 'p row list" where
  "astype_str str_of df =
     map (\<lambda>(title, why).
            \<lparr>Passage_Title = title,
             Why_I_Got_It_Wrong = Some (case why of None \<Rightarrow> ''nan'' | Some v \<Rightarrow> str_of v)\<rparr>)
         df"

text \<open>The data frame that \<open>analyze_errors(df)\<close> is called on.\<close>

definition load_errors ::
  "(string \<Rightarrow> 'v) \<Rightarrow> ('v \<Rightarrow> string) \<Rightarrow> ('p \<times> string) list \<Rightarrow> 'p row list" where
  "load_errors parse str_of lines = astype_str str_of (dropna (read_csv parse lines))"

section \<open>Parsing generated content\<close>

text \<open>
  \<open>str.strip()\<close> removes leading and trailing whitespace; on ASCII text the whitespace
  characters are the codes 9 to 13 and 28 to 32.
\<close>

definition is_space :: "char \<Rightarrow> bool" where
  "is_space c = (let n = (of_char c :: nat) in (9 \<le> n \<and> n \<le> 13) \<or> (28 \<le> n \<and> n \<le> 32))"

definition strip :: "string \<Rightarrow> string" where
  "strip s = rev (dropWhile is_space (rev (dropWhile is_space s)))"

text \<open>
  \<open>s.split(sep)\<close> scans from the left and cuts at every occurrence of the separator,
  the occurrences not overlapping. \<open>cur\<close> holds, reversed, the characters of the part
  being read. Python refuses an empty separator; the application always passes the
  fixed marker below.
\<close>

function split_from :: "string \<Rightarrow> string \<Rightarrow> string \<Rightarrow> string list" where
  "split_from sep cur [] = [rev cur]"
| "split_from sep cur (c # cs) =
     (if sep \<noteq> [] \<and> prefix sep (c # cs)
      then rev cur # split_from sep [] (drop (length sep) (c # cs))
      else split_from sep (c # cur) cs)"
  by pat_completeness auto
termination
  by (relation "measure (\<lambda>(sep, cur, s). length s)") (auto simp: neq_Nil_conv)

definition split_str :: "string \<Rightarrow> string \<Rightarrow> string list" where
  "split_str s sep = split_from sep [] s"

definition marker :: string where
  "marker = ''### Answer & Explanation''"

text \<open>
  The text shown when the answers are not available. It starts with a warning sign (the
  code points U+26A0 and U+FE0F), written here as its six UTF-8 bytes.
\<close>

definition answers_not_available :: string where
  "answers_not_available =
     [CHR 0xE2, CHR 0x9A, CHR 0xA0, CHR 0xEF, CHR 0xB8, CHR 0x8F] @ '' Answers not available.''"

text \<open>
  \<open>parts = full_text.split(marker)\<close>, then \<open>parts[0].strip()\<close> and
  \<open>parts[1].strip() if len(parts) > 1 else\<close> the text above. \<open>parts[0]\<close> on an empty
  list would raise, which is the result \<open>None\<close>.
\<close>

definition parse_content :: "string \<Rightarrow> (string \<times> string) option" where
  "parse_content full_text =
     (case split_str full_text marker of
        [] \<Rightarrow> None
      | [p0] \<Rightarrow> Some (strip p0, answers_not_available)
      | p0 # p1 # _ \<Rightarrow> Some (strip p0, strip p1))"

section \<open>Session state and the generator\<close>

text \<open>A chat entry, the dict \<open>{"role": ..., "content": ...}\<close>.\<close>

record message =
  role :: string
  content :: string

text \<open>
  A practice unit is identified by its category and its position in \<open>top_errors\<close>. The
  application stores three values per unit in \<open>st.session_state\<close>, under the keys
  \<open>passage_<err_type>_<idx>\<close>, \<open>reveal_<err_type>_<idx>\<close> and
  \<open>chat_<err_type>_<idx>\<close>. The three prefixes differ, so the three families of keys
  never meet, and the state is three maps from units to values. \<open>requests\<close> is the
  list of the calls made to the generator so far, oldest first.
\<close>

type_synonym unit_key = "string \<times> nat"

type_synonym request = "string \<times> message list option"

record session_state =
  passages :: "unit_key \<rightharpoonup> string"
  reveals :: "unit_key \<rightharpoonup> bool"
  chats :: "unit_key \<rightharpoonup> message list"
  requests :: "request list"

definition empty_session :: session_state where
  "empty_session = \<lparr>passages = Map.empty, reveals = Map.empty, chats = Map.empty, requests = []\<rparr>"

datatype exn = KeyError | IndexError | GenerationError string

text \<open>
  \<open>generate_cars_content(error_type, conversation_history)\<close> calls a language model
  over the network. What it returns is not determined by the program, so the model takes
  the behaviour of the service as a parameter: a function of the number of earlier
  calls and of the two arguments, giving the text returned (\<open>Inr\<close>) or the message of the
  exception raised (\<open>Inl\<close>). Every call is recorded in \<open>requests\<close>.
\<close>

type_synonym generator = "nat \<Rightarrow> string \<Rightarrow> message list option \<Rightarrow> string + string"

definition generate_cars_content ::
  "generator \<Rightarrow> string \<Rightarrow> message list option \<Rightarrow> session_state \<Rightarrow>
     (string + string) \<times> session_state" where
  "generate_cars_content gpt error_type conversation_history s =
     (gpt (length (requests s)) error_type conversation_history,
      s\<lparr>requests := requests s @ [(error_type, conversation_history)]\<rparr>)"

text \<open>
  \<open>if passage_key not in st.session_state: st.session_state[passage_key] =
  generate_cars_content(err_type)\<close>, followed by the read of
  \<open>st.session_state[passage_key]\<close>. An exception of the generator leaves the key unset.
\<close>

definition get_or_generate_content ::
  "generator \<Rightarrow> unit_key \<Rightarrow> session_state \<Rightarrow> (exn + string) \<times> session_state" where
  "get_or_generate_content gpt k s =
     (case passages s k of
        Some full_text \<Rightarrow> (Inr full_text, s)
      | None \<Rightarrow>
          (case generate_cars_content gpt (fst k) None s of
             (Inl e, s') \<Rightarrow> (Inl (GenerationError e), s')
           | (Inr full_text, s') \<Rightarrow>
               (Inr full_text, s'\<lparr>passages := (passages s')(k \<mapsto> full_text)\<rparr>)))"

text \<open>\<open>if reveal_key not in st.session_state: st.session_state[reveal_key] = False\<close>.\<close>

definition init_reveal :: "unit_key \<Rightarrow> session_state \<Rightarrow> session_state" where
  "init_reveal k s =
     (case reveals s k of None \<Rightarrow> s\<lparr>reveals := (reveals s)(k \<mapsto> False)\<rparr> | Some _ \<Rightarrow> s)"

text \<open>\<open>st.session_state[reveal_key] = True\<close>, and the read of the flag.\<close>

definition reveal_answers :: "unit_key \<Rightarrow> session_state \<Rightarrow> session_state" where
  "reveal_answers k s = s\<lparr>reveals := (reveals s)(k \<mapsto> True)\<rparr>"

definition is_revealed :: "unit_key \<Rightarrow> session_state \<Rightarrow> bool" where
  "is_revealed k s = (reveals s k = Some True)"

text \<open>\<open>if chat_key not in st.session_state: st.session_state[chat_key] = []\<close>.\<close>

definition init_chat :: "unit_key \<Rightarrow> session_state \<Rightarrow> session_state" where
  "init_chat k s =
     (case chats s k of None \<Rightarrow> s\<lparr>chats := (chats s)(k \<mapsto> [])\<rparr> | Some _ \<Rightarrow> s)"

text \<open>
  \<open>st.session_state[chat_key].append({"role": "user", "content": prompt})\<close>; reading a
  key that is not set raises \<open>KeyError\<close>.
\<close>

definition append_user_turn :: "unit_key \<Rightarrow> string \<Rightarrow> session_state \<Rightarrow> exn + session_state" where
  "append_user_turn k p s =
     (case chats s k of
        None \<Rightarrow> Inl KeyError
      | Some transcript \<Rightarrow>
          Inr (s\<lparr>chats := (chats s)(k \<mapsto> transcript @ [\<lparr>role = ''user'', content = p\<rparr>])\<rparr>))"

text \<open>The slice \<open>xs[-n:]\<close> for a positive \<open>n\<close>: the last \<open>n\<close> items, or all when there are fewer.\<close>

definition last_items :: "nat \<Rightarrow> 'a list \<Rightarrow> 'a list" where
  "last_items n xs = drop (length xs - n) xs"

text \<open>
  The body of the \<open>try\<close>: \<open>full_context\<close> is built from the stored passage and the last
  five chat entries, the generator is called with it, and its reply is appended to the
  chat. Any exception raised there is caught by \<open>except Exception\<close> and reported.
\<close>

definition request_assistant_turn ::
  "generator \<Rightarrow> unit_key \<Rightarrow> session_state \<Rightarrow> (exn + string) \<times> session_state" where
  "request_assistant_turn gpt k s =
     (case passages s k of
        None \<Rightarrow> (Inl KeyError, s)
      | Some full_text \<Rightarrow>
          (case chats s k of
             None \<Rightarrow> (Inl KeyError, s)
           | Some transcript \<Rightarrow>
               (let full_context =
                      \<lparr>role = ''assistant'', content = full_text\<rparr> # last_items 5 transcript
                in case generate_cars_content gpt (fst k) (Some full_context) s of
                     (Inl e, s') \<Rightarrow> (Inl (GenerationError e), s')
                   | (Inr reply, s') \<Rightarrow>
                       (case chats s' k of
                          None \<Rightarrow> (Inl KeyError, s')
                        | Some transcript' \<Rightarrow>
                            (Inr reply,
                             s'\<lparr>chats := (chats s')(k \<mapsto>
                                  transcript' @ [\<lparr>role = ''assistant'', content = reply\<rparr>])\<rparr>)))))"

section \<open>One rendering of a practice unit\<close>

text \<open>
  What the user did in a run of the script: whether the reveal button of the unit was
  pressed (\<open>st.button\<close>) and the text submitted to the unit's chat box, if any
  (\<open>st.chat_input\<close>).
\<close>

record ui_input =
  button_clicked :: bool
  chat_input :: "string option"

text \<open>
  The reveal logic: the flag is initialised, and set when the button is pressed. The
  button is drawn, and so can only have been pressed, while the answers are hidden.
\<close>

definition reveal_section :: "unit_key \<Rightarrow> ui_input \<Rightarrow> session_state \<Rightarrow> session_state" where
  "reveal_section k inp s =
     (let s' = init_reveal k s
      in if \<not> is_revealed k s' \<and> button_clicked inp then reveal_answers k s' else s')"

datatype status = Completed | GptFailed exn | RerunRequested

text \<open>
  The chat interface: the chat is initialised; \<open>if prompt := st.chat_input(...)\<close> is
  entered for a submitted text that is not empty; the user's entry is appended before
  the \<open>try\<close>; a failure inside the \<open>try\<close> is reported by \<open>st.error\<close> and the script goes
  on; after a reply the script is rerun. An exception outside the \<open>try\<close> leaves the
  rendering (\<open>Inl\<close>).
\<close>

definition chat_section ::
  "generator \<Rightarrow> unit_key \<Rightarrow> ui_input \<Rightarrow> session_state \<Rightarrow> (exn + status) \<times> session_state" where
  "chat_section gpt k inp s =
     (let s' = init_chat k s
      in case chat_input inp of
           None \<Rightarrow> (Inr Completed, s')
         | Some p \<Rightarrow>
             if p = [] then (Inr Completed, s')
             else
               (case append_user_turn k p s' of
                  Inl e \<Rightarrow> (Inl e, s')
                | Inr s'' \<Rightarrow>
                    (case request_assistant_turn gpt k s'' of
                       (Inl e, s''') \<Rightarrow> (Inr (GptFailed e), s''')
                     | (Inr reply, s''') \<Rightarrow> (Inr RerunRequested, s'''))))"

text \<open>
  The rendering either stops with an exception that the enclosing \<open>except\<close> of the script
  reports, or shows the passage, the answers when revealed and the chat so far, and ends
  normally, with the message of a failed chat request, or with a rerun of the script.
\<close>

datatype outcome =
    ProcessingError exn
  | Shown string "string option" "message list" status

text \<open>The body of \<open>for idx, (err_type, _) in enumerate(top_errors)\<close> for the unit \<open>k\<close>.\<close>

definition render_unit ::
  "generator \<Rightarrow> unit_key \<Rightarrow> ui_input \<Rightarrow> session_state \<Rightarrow> outcome \<times> session_state" where
  "render_unit gpt k inp s =
     (case get_or_generate_content gpt k s of
        (Inl e, s1) \<Rightarrow> (ProcessingError e, s1)
      | (Inr full_text, s1) \<Rightarrow>
          (case parse_content full_text of
             None \<Rightarrow> (ProcessingError IndexError, s1)
           | Some (passage_text, answers_text) \<Rightarrow>
               (let s2 = reveal_section k inp s1;
                    answers = (if is_revealed k s2 then Some answers_text else None);
                    msgs = (case chats s2 k of None \<Rightarrow> [] | Some transcript \<Rightarrow> transcript)
                in case chat_section gpt k inp s2 of
                     (Inl e, s3) \<Rightarrow> (ProcessingError e, s3)
                   | (Inr st, s3) \<Rightarrow> (Shown passage_text answers msgs st, s3))))"

text \<open>
  A session is a sequence of such renderings, of any units with any inputs: the state
  is changed by nothing else.
\<close>


fun run_renders ::
  "generator \<Rightarrow> (unit_key \<times> ui_input) list \<Rightarrow> session_state \<Rightarrow> session_state" where
  "run_renders gpt [] s = s"
| "run_renders gpt ((k, inp) # evs) s = run_renders gpt evs (snd (render_unit gpt k inp s))"


section \<open>A sample session\<close>

text \<open>
  A unit, a generator that answers every call, one whose follow-up calls fail, and the
  state of a session after the first rendering of the unit.
\<close>

definition demo_unit :: unit_key where
  "demo_unit = (''Tone/Attitude'', 0)"

definition demo_gpt :: generator where
  "demo_gpt n error_type conversation_history =
     (case conversation_history of None \<Rightarrow> Inr ''passage'' | Some h \<Rightarrow> Inr ''reply'')"

definition failing_gpt :: generator where
  "failing_gpt n error_type conversation_history =
     (case conversation_history of None \<Rightarrow> Inr ''passage'' | Some h \<Rightarrow> Inl ''timeout'')"

definition demo_session :: session_state where
  "demo_session =
     \<lparr>passages = [demo_unit \<mapsto> ''passage''], reveals = [demo_unit \<mapsto> False],
      chats = [demo_unit \<mapsto> []], requests = [(''Tone/Attitude'', None)]\<rparr>"

section \<open>Properties of the classifier\<close>

lemma map_of_append_result:
  "map_of (append_result results pattern passage) c =
     (if c = pattern then Some (entries results pattern @ [passage]) else map_of results c)"
proof (cases "pattern \<in> fst ` set results")
  case True
  have "map_of (map (\<lambda>(k, ps). if k = pattern then (k, ps @ [passage]) else (k, ps)) rs) c =
        map_option (\<lambda>ps. if c = pattern then ps @ [passage] else ps) (map_of rs c)"
    for rs :: "'a report"
    by (induction rs) auto
  moreover from True have "map_of results pattern \<noteq> None"
    by (simp add: map_of_eq_None_iff)
  ultimately show ?thesis using True
    by (cases "c = pattern")
       (auto simp: append_result_def entries_def option.map_ident split: option.splits)
next
  case False
  then have "map_of results pattern = None" by (simp add: map_of_eq_None_iff)
  with False show ?thesis
    by (auto simp: append_result_def entries_def map_add_def split: option.splits)
qed

lemma entries_append_result:
  "entries (append_result results pattern passage) c =
     (if c = pattern then entries results pattern @ [passage] else entries results c)"
  by (simp add: entries_def map_of_append_result)

lemma keys_append_result:
  "map fst (append_result results pattern passage) =
     (if pattern \<in> fst ` set results then map fst results else map fst results @ [pattern])"
  by (auto simp: append_result_def split: prod.splits)

lemma nonempty_append_result:
  "[] \<notin> snd ` set results \<Longrightarrow> [] \<notin> snd ` set (append_result results pattern passage)"
  by (auto simp: append_result_def split: if_splits)

lemma entries_scan_patterns:
  "distinct (map fst pats) \<Longrightarrow>
   entries (scan_patterns pats error_text passage results) c =
     entries results c @
       (case map_of pats c of
          None \<Rightarrow> []
        | Some kws \<Rightarrow> if any_kw kws error_text then [passage] else [])"
proof (induction pats arbitrary: results)
  case Nil
  then show ?case by simp
next
  case (Cons a pats)
  obtain pattern kws where a: "a = (pattern, kws)" by (cases a)
  from Cons.prems a have d: "distinct (map fst pats)" and n: "map_of pats pattern = None"
    by (auto simp: map_of_eq_None_iff)
  show ?case
    using Cons.IH [OF d] n by (auto simp: a entries_append_result split: option.splits)
qed

lemma keys_scan_patterns:
  "distinct (map fst results) \<Longrightarrow>
   distinct (map fst (scan_patterns pats error_text passage results))"
  by (induction pats arbitrary: results) (auto simp: keys_append_result)

lemma nonempty_scan_patterns:
  "[] \<notin> snd ` set results \<Longrightarrow>
   [] \<notin> snd ` set (scan_patterns pats error_text passage results)"
proof (induction pats arbitrary: results)
  case Nil
  then show ?case by simp
next
  case (Cons a pats)
  obtain pattern kws where a: "a = (pattern, kws)" by (cases a)
  have "[] \<notin> snd ` set (if any_kw kws error_text
          then append_result results pattern passage else results)"
    using Cons.prems nonempty_append_result [OF Cons.prems, of pattern passage]
    by (simp split: if_splits)
  then show ?case unfolding a scan_patterns.simps
    by (rule Cons.IH)
qed

lemma distinct_error_patterns: "distinct (map fst error_patterns)"
  by code_simp

lemma entries_analyze_rows:
  "entries (analyze_rows rows results) c =
     entries results c @ map Passage_Title (filter (row_matches c) rows)"
proof (induction rows arbitrary: results)
  case Nil
  then show ?case by simp
next
  case (Cons r rows)
  show ?case
    by (cases "Why_I_Got_It_Wrong r")
       (auto simp: Cons.IH row_matches_def entries_scan_patterns [OF distinct_error_patterns]
             split: option.splits)
qed

lemma entries_analyze_errors:
  "entries (analyze_errors df) c = map Passage_Title (filter (row_matches c) df)"
  by (simp add: analyze_errors_def entries_analyze_rows) (simp add: entries_def)

lemma keys_analyze_rows:
  "distinct (map fst results) \<Longrightarrow> distinct (map fst (analyze_rows rows results))"
  by (induction rows arbitrary: results) (auto simp: keys_scan_patterns split: option.splits)

lemma nonempty_analyze_rows:
  "[] \<notin> snd ` set results \<Longrightarrow> [] \<notin> snd ` set (analyze_rows rows results)"
proof (induction rows arbitrary: results)
  case Nil
  then show ?case by simp
next
  case (Cons r rows)
  show ?case
  proof (cases "Why_I_Got_It_Wrong r")
    case None
    then show ?thesis using Cons by simp
  next
    case (Some w)
    then show ?thesis using Cons.IH [OF nonempty_scan_patterns [OF Cons.prems]] by simp
  qed
qed

lemma no_empty_keyword: "(pattern, kws) \<in> set error_patterns \<Longrightarrow> [] \<notin> set kws"
  by (auto simp: error_patterns_def)

lemma any_kw_empty_text: "any_kw kws [] = ([] \<in> set kws)"
  by (auto simp: any_kw_def list_ex_iff)

lemma scan_patterns_empty_text:
  "(\<And>pattern kws. (pattern, kws) \<in> set pats \<Longrightarrow> [] \<notin> set kws) \<Longrightarrow>
   scan_patterns pats [] passage results = results"
proof (induction pats arbitrary: results)
  case Nil
  then show ?case by simp
next
  case (Cons a pats)
  obtain pattern kws where a: "a = (pattern, kws)" by (cases a)
  have "\<not> any_kw kws []" using Cons.prems [of pattern kws] by (simp add: a any_kw_empty_text)
  moreover have "scan_patterns pats [] passage results = results"
    by (rule Cons.IH) (use Cons.prems in auto)
  ultimately show ?case by (simp add: a)
qed

lemma analyze_rows_skip:
  "analyze_rows (filter (\<lambda>r. \<not> missing_or_empty r) rows) results = analyze_rows rows results"
proof (induction rows arbitrary: results)
  case Nil
  then show ?case by simp
next
  case (Cons r rows)
  show ?case
  proof (cases "Why_I_Got_It_Wrong r")
    case None
    then have "missing_or_empty r" by (simp add: missing_or_empty_def)
    with None show ?thesis by (simp add: Cons.IH)
  next
    case (Some w)
    show ?thesis
    proof (cases "w = []")
      case True
      have "scan_patterns error_patterns [] (Passage_Title r) results = results"
        by (rule scan_patterns_empty_text) (rule no_empty_keyword)
      moreover from Some True have "missing_or_empty r" by (simp add: missing_or_empty_def)
      ultimately show ?thesis using Some True by (simp add: Cons.IH lower_def)
    next
      case False
      with Some have "\<not> missing_or_empty r" by (simp add: missing_or_empty_def)
      with Some show ?thesis by (simp add: Cons.IH)
    qed
  qed
qed

lemma row_matches_not_missing:
  assumes "row_matches c r"
  shows "\<not> missing_or_empty r"
proof -
  from assms obtain w kws where w: "Why_I_Got_It_Wrong r = Some w"
    and k: "map_of error_patterns c = Some kws" and a: "any_kw kws (lower w)"
    by (auto simp: row_matches_def split: option.splits)
  from k have "(c, kws) \<in> set error_patterns" by (rule map_of_SomeD)
  then have "[] \<notin> set kws" by (rule no_empty_keyword)
  with a have "lower w \<noteq> []" by (auto simp: any_kw_empty_text)
  then show ?thesis using w by (simp add: missing_or_empty_def lower_def)
qed

lemma sorted_desc_sort_key:
  "sorted_wrt (\<lambda>x y. length (snd y) \<le> length (snd x))
     (sort_key (\<lambda>x. - int (length (snd x))) (r :: 'p report))"
proof -
  have "sorted (map (\<lambda>x. - int (length (snd x))) (sort_key (\<lambda>x. - int (length (snd x))) r))"
    by (rule sorted_sort_key)
  then show ?thesis by (simp add: sorted_map)
qed


section \<open>Claims about the classifier and the ranking\<close>

text \<open>
  C2. On the three-row dataset of the specification, \<open>analyze_errors\<close> with the shipped
  catalog returns Tone/Attitude with P1, Context Misread with P2 and Detail Missed with
  P2, in this order and nothing else (so P3 is in no category), and \<open>top_errors\<close> of
  that report keeps the three categories, each of count 1, in the same first-seen order.
\<close>

theorem scenario_report_and_rank:
  "analyze_errors scenario_rows =
     [(''Tone/Attitude'', [''P1'']), (''Context Misread'', [''P2'']),
      (''Detail Missed'', [''P2''])]
   \<and> top_errors (analyze_errors scenario_rows) =
     [(''Tone/Attitude'', [''P1'']), (''Context Misread'', [''P2'']),
      (''Detail Missed'', [''P2''])]"
  by code_simp

text \<open>
  C3. For every report, \<open>top_errors\<close> returns at most three pairs (three, or all of them
  when the report has fewer), ordered by sequence length descending. It is the first
  three items of a rearrangement of the report that is ordered by descending length
  and in which the pairs of any one length stand in the order they have in the report
  (ties keep their first-seen order). On the empty report it returns the empty list.
\<close>

theorem top_errors_ranked:
  "length (top_errors (r :: 'p report)) = min 3 (length r)
   \<and> sorted_wrt (\<lambda>x y. length (snd y) \<le> length (snd x)) (top_errors r)
   \<and> (\<exists>s. top_errors r = take 3 s
          \<and> mset s = mset r
          \<and> sorted_wrt (\<lambda>x y. length (snd y) \<le> length (snd x)) s
          \<and> (\<forall>n. filter (\<lambda>x. length (snd x) = n) s = filter (\<lambda>x. length (snd x) = n) r))
   \<and> top_errors ([] :: 'p report) = []"
proof -
  let ?f = "\<lambda>x :: string \<times> 'p list. - int (length (snd x))"
  let ?s = "sort_key ?f r"
  have st: "filter (\<lambda>x. length (snd x) = n) ?s = filter (\<lambda>x. length (snd x) = n) r" for n
    using sort_key_stable [of ?f "- int n" r] by simp
  have so: "sorted_wrt (\<lambda>x y. length (snd y) \<le> length (snd x)) ?s"
    by (rule sorted_desc_sort_key)
  have "sorted_wrt (\<lambda>x y. length (snd y) \<le> length (snd x)) (take 3 ?s)"
    using so by (rule sorted_wrt_take)
  moreover have "\<exists>s. top_errors r = take 3 s
          \<and> mset s = mset r
          \<and> sorted_wrt (\<lambda>x y. length (snd y) \<le> length (snd x)) s
          \<and> (\<forall>n. filter (\<lambda>x. length (snd x) = n) s = filter (\<lambda>x. length (snd x) = n) r)"
    using st so by (intro exI [of _ ?s]) (simp add: top_errors_def)
  ultimately show ?thesis by (simp add: top_errors_def)
qed

text \<open>
  C5, as the code has it. A row whose explanation is missing or empty adds nothing to
  the report: the report of a dataset is the report of the dataset without these rows.
  Hence a passage title all of whose rows have a missing or empty explanation is in no
  category's sequence. (A title that such a row shares with a row that matches is in
  the sequence, through the other row: see the counterexample.)
\<close>

theorem skipped_rows_contribute_nothing:
  "analyze_errors df = analyze_errors (filter (\<lambda>r. \<not> missing_or_empty r) df)
   \<and> ((\<forall>r \<in> set df. Passage_Title r = p \<longrightarrow> missing_or_empty r)
        \<longrightarrow> p \<notin> set (entries (analyze_errors df) c))"
proof -
  have "entries (analyze_errors df) c = map Passage_Title (filter (row_matches c) df)"
    by (rule entries_analyze_errors)
  then have "(\<forall>r \<in> set df. Passage_Title r = p \<longrightarrow> missing_or_empty r)
        \<longrightarrow> p \<notin> set (entries (analyze_errors df) c)"
    using row_matches_not_missing by fastforce
  then show ?thesis by (simp add: analyze_errors_def analyze_rows_skip)
qed

theorem skipped_rows_witness:
  "analyze_errors
     [\<lparr>Passage_Title = ''P1'', Why_I_Got_It_Wrong = None\<rparr>,
      \<lparr>Passage_Title = ''P2'', Why_I_Got_It_Wrong = Some ''The tone''\<rparr>,
      \<lparr>Passage_Title = ''P1'', Why_I_Got_It_Wrong = Some []\<rparr>]
     = analyze_errors [\<lparr>Passage_Title = ''P2'', Why_I_Got_It_Wrong = Some ''The tone''\<rparr>]
   \<and> ''P1'' \<notin> set (entries (analyze_errors
     [\<lparr>Passage_Title = ''P1'', Why_I_Got_It_Wrong = None\<rparr>,
      \<lparr>Passage_Title = ''P2'', Why_I_Got_It_Wrong = Some ''The tone''\<rparr>,
      \<lparr>Passage_Title = ''P1'', Why_I_Got_It_Wrong = Some []\<rparr>]) ''Tone/Attitude'')"
proof -
  let ?df = "[\<lparr>Passage_Title = ''P1'', Why_I_Got_It_Wrong = None\<rparr>,
      \<lparr>Passage_Title = ''P2'', Why_I_Got_It_Wrong = Some ''The tone''\<rparr>,
      \<lparr>Passage_Title = ''P1'', Why_I_Got_It_Wrong = Some []\<rparr>]"
  note t = skipped_rows_contribute_nothing [of ?df "''P1''" "''Tone/Attitude''"]
  have h: "\<forall>r \<in> set ?df. Passage_Title r = ''P1'' \<longrightarrow> missing_or_empty r"
    by (simp add: missing_or_empty_def)
  have f: "filter (\<lambda>r. \<not> missing_or_empty r) ?df =
      [\<lparr>Passage_Title = ''P2'', Why_I_Got_It_Wrong = Some ''The tone''\<rparr>]"
    by (simp add: missing_or_empty_def)
  from t have a: "analyze_errors ?df = analyze_errors (filter (\<lambda>r. \<not> missing_or_empty r) ?df)"
    by (rule conjunct1)
  from t h have b: "''P1'' \<notin> set (entries (analyze_errors ?df) ''Tone/Attitude'')"
    by blast
  from a [unfolded f] b show ?thesis by (rule conjI)
qed

text \<open>
  The claim C5 as it is written fails where two rows share a passage title: the first
  row below has no explanation, and its title P1 is in the Tone/Attitude sequence.
\<close>

theorem duplicate_title_counterexample:
  "missing_or_empty \<lparr>Passage_Title = ''P1'', Why_I_Got_It_Wrong = None\<rparr>
   \<and> analyze_errors
     [\<lparr>Passage_Title = ''P1'', Why_I_Got_It_Wrong = None\<rparr>,
      \<lparr>Passage_Title = ''P1'', Why_I_Got_It_Wrong = Some ''I misjudged the tone''\<rparr>]
     = [(''Tone/Attitude'', [''P1''])]
   \<and> ''P1'' \<in> set (entries (analyze_errors
     [\<lparr>Passage_Title = ''P1'', Why_I_Got_It_Wrong = None\<rparr>,
      \<lparr>Passage_Title = ''P1'', Why_I_Got_It_Wrong = Some ''I misjudged the tone''\<rparr>])
     ''Tone/Attitude'')"
  by code_simp

text \<open>
  C10. The report has each category once as a key, no key with an empty sequence, and
  the sequence of a category is the passage titles of the rows that match the category,
  in row order, one entry per matching row however many of the category's keywords the
  row contains. So a title occurs in a category's sequence as many times as there are
  rows with this title that match the category.
\<close>

theorem once_per_matching_row:
  "distinct (map fst (analyze_errors df))
   \<and> [] \<notin> snd ` set (analyze_errors df)
   \<and> entries (analyze_errors df) c = map Passage_Title (filter (row_matches c) df)
   \<and> count_list (entries (analyze_errors df) c) p =
       length (filter (\<lambda>r. Passage_Title r = p \<and> row_matches c r) df)"
proof -
  have e: "entries (analyze_errors df) c = map Passage_Title (filter (row_matches c) df)"
    by (rule entries_analyze_errors)
  have "count_list (map Passage_Title rs) p = length (filter (\<lambda>r. Passage_Title r = p) rs)"
    for rs :: "'a row list"
    by (induction rs) auto
  then have "count_list (entries (analyze_errors df) c) p =
      length (filter (\<lambda>r. Passage_Title r = p \<and> row_matches c r) df)"
    by (simp add: e conj_commute)
  moreover have "distinct (map fst (analyze_errors df))"
    by (simp add: analyze_errors_def keys_analyze_rows)
  moreover have "[] \<notin> snd ` set (analyze_errors df)"
    using nonempty_analyze_rows [of "[]" df] by (simp add: analyze_errors_def)
  ultimately show ?thesis using e by simp
qed

theorem once_per_row_witness:
  "entries (analyze_errors
     [\<lparr>Passage_Title = ''P1'', Why_I_Got_It_Wrong = Some ''Tone and attitude were neutral''\<rparr>,
      \<lparr>Passage_Title = ''P1'', Why_I_Got_It_Wrong = Some ''negative tone''\<rparr>]) ''Tone/Attitude''
   = [''P1'', ''P1'']"
proof -
  have "row_matches ''Tone/Attitude''
      \<lparr>Passage_Title = ''P1'', Why_I_Got_It_Wrong = Some ''Tone and attitude were neutral''\<rparr>"
    by code_simp
  moreover have "row_matches ''Tone/Attitude''
      \<lparr>Passage_Title = ''P1'', Why_I_Got_It_Wrong = Some ''negative tone''\<rparr>"
    by code_simp
  ultimately show ?thesis
    using once_per_matching_row
      [of "[\<lparr>Passage_Title = ''P1'',
              Why_I_Got_It_Wrong = Some ''Tone and attitude were neutral''\<rparr>,
            \<lparr>Passage_Title = ''P1'', Why_I_Got_It_Wrong = Some ''negative tone''\<rparr>]"
          "''Tone/Attitude''"]
    by simp
qed


section \<open>Properties of loading and parsing\<close>

lemma empty_is_na: "[] \<in> set na_values"
  by (simp add: na_values_def)

lemma load_errors_eq:
  "load_errors parse str_of lines =
     map (\<lambda>(title, why).
            \<lparr>Passage_Title = title, Why_I_Got_It_Wrong = Some (str_of (parse why))\<rparr>)
       (filter (\<lambda>(title, why). why \<notin> set na_values) lines)"
  unfolding load_errors_def astype_str_def dropna_def read_csv_def
  by (induction lines) auto

lemma split_from_absent:
  "\<not> sublist sep s \<Longrightarrow> split_from sep cur s = [rev cur @ s]"
proof (induction s arbitrary: cur)
  case Nil
  then show ?case by simp
next
  case (Cons c cs)
  from Cons.prems have "\<not> prefix sep (c # cs)" and "\<not> sublist sep cs"
    by (auto simp: sublist_Cons_right)
  then show ?case using Cons.IH [of "c # cur"] by simp
qed

lemma split_from_first:
  assumes "sep \<noteq> []" and "\<And>i. i < length a \<Longrightarrow> \<not> prefix sep (drop i (a @ sep @ b))"
  shows "split_from sep cur (a @ sep @ b) = (rev cur @ a) # split_from sep [] b"
  using assms(2)
proof (induction a arbitrary: cur)
  case Nil
  from assms(1) obtain c cs where s: "sep = c # cs" by (cases sep) auto
  have "split_from sep cur (sep @ b) = rev cur # split_from sep [] (drop (length sep) (sep @ b))"
    unfolding s by simp
  then show ?case by simp
next
  case (Cons c a)
  from Cons.prems [of 0] have n: "\<not> prefix sep (c # a @ sep @ b)" by simp
  have "\<not> prefix sep (drop i (a @ sep @ b))" if "i < length a" for i
    using Cons.prems [of "Suc i"] that by simp
  then have "split_from sep (c # cur) (a @ sep @ b) = (rev (c # cur) @ a) # split_from sep [] b"
    by (rule Cons.IH)
  with n show ?case by simp
qed

text \<open>No proper, non-empty start of the marker is also an end of it.\<close>

lemma marker_borderless:
  "list_all (\<lambda>us. us = [] \<or> us = marker \<or> \<not> suffix us marker) (prefixes marker)"
  by code_simp

lemma marker_first_occurrence:
  assumes "\<not> sublist marker a" and "i < length a"
  shows "\<not> prefix marker (drop i (a @ marker @ b))"
proof
  assume p: "prefix marker (drop i (a @ marker @ b))"
  let ?a2 = "drop i a"
  from assms(2) have ne: "?a2 \<noteq> []" by simp
  have sa: "suffix ?a2 a" by (rule suffix_drop)
  from p assms(2) have "prefix marker (?a2 @ marker @ b)" by simp
  then consider "prefix marker ?a2" | us where "marker = ?a2 @ us" "prefix us (marker @ b)"
    by (auto simp: prefix_append)
  then show False
  proof cases
    case 1
    then have "sublist marker ?a2" by (rule prefix_imp_sublist)
    moreover have "sublist ?a2 a" using sa by (rule suffix_imp_sublist)
    ultimately have "sublist marker a" by (rule sublist_order.order_trans)
    with assms(1) show False by contradiction
  next
    case 2
    from 2(1) ne have len: "length us < length marker"
      by (metis length_append length_greater_0_conv less_add_same_cancel2)
    from 2(2) have "prefix us marker \<or> (\<exists>vs. us = marker @ vs)"
      by (auto simp: prefix_append)
    with len have pu: "prefix us marker" by auto
    from 2(1) have su: "suffix us marker" by (metis suffixI)
    from len have nm: "us \<noteq> marker" by auto
    have "us \<noteq> []"
    proof
      assume "us = []"
      with 2(1) have "marker = ?a2" by simp
      then have "sublist marker a" using sa suffix_imp_sublist by metis
      with assms(1) show False by contradiction
    qed
    moreover from pu have "us \<in> set (prefixes marker)" by simp
    ultimately show False
      using marker_borderless nm su by (auto simp: list_all_iff)
  qed
qed

lemma marker_nonempty: "marker \<noteq> []"
  by (simp add: marker_def)

lemma split_str_first:
  assumes "\<not> sublist marker a"
  shows "split_str (a @ marker @ b) marker = a # split_str b marker"
  unfolding split_str_def
  using split_from_first [OF marker_nonempty, of a b "[]"] marker_first_occurrence [OF assms]
  by simp

lemma split_from_nonempty: "split_from sep cur s \<noteq> []"
  by (induction sep cur s rule: split_from.induct) auto

text \<open>
  What \<open>parse_content\<close> computes. It never fails. For a text without the marker the
  passage section is the whole text, trimmed, and the answer section is the fixed text
  for unavailable answers. For a text in which the marker occurs once, between a part
  \<open>a\<close> and a part \<open>b\<close> which do not contain it, the passage section is \<open>a\<close> trimmed
  and the answer section is \<open>b\<close> trimmed. When a second marker follows \<open>b\<close>, the answer
  section is still \<open>b\<close> trimmed: whatever stands after the second marker is in neither
  section.
\<close>

lemma parse_content_behaviour:
  "parse_content s \<noteq> None
   \<and> (\<not> sublist marker s \<longrightarrow> parse_content s = Some (strip s, answers_not_available))
   \<and> (\<not> sublist marker a \<and> \<not> sublist marker b \<longrightarrow>
        parse_content (a @ marker @ b) = Some (strip a, strip b))
   \<and> (\<not> sublist marker a \<and> \<not> sublist marker b \<longrightarrow>
        parse_content (a @ marker @ b @ marker @ c) = Some (strip a, strip b))"
proof -
  have 1: "parse_content s \<noteq> None"
    using split_from_nonempty [of marker "[]" s]
    by (auto simp: parse_content_def split_str_def split: list.splits)
  have 2: "parse_content s = Some (strip s, answers_not_available)" if "\<not> sublist marker s"
    using split_from_absent [OF that, of "[]"] by (simp add: parse_content_def split_str_def)
  have 3: "parse_content (a @ marker @ b) = Some (strip a, strip b)"
    if "\<not> sublist marker a" "\<not> sublist marker b"
    using split_str_first [OF that(1), of b] split_from_absent [OF that(2), of "[]"]
    by (simp add: parse_content_def split_str_def)
  have 4: "parse_content (a @ marker @ b @ marker @ c) = Some (strip a, strip b)"
    if "\<not> sublist marker a" "\<not> sublist marker b"
    using split_str_first [OF that(1), of "b @ marker @ c"] split_str_first [OF that(2), of c]
    by (simp add: parse_content_def)
  from 1 2 3 4 show ?thesis by blast
qed


section \<open>Claims about loading and parsing\<close>

text \<open>
  C8. The data frame handed to \<open>analyze_errors\<close> consists of the lines of the file whose
  \<open>Why_I_Got_It_Wrong\<close> field is not read as missing, in their order, each with its
  title and with the text of the value read from its field; the lines whose field is
  read as missing are left out. The empty field is read as missing. So no row that the
  classifier receives has a missing explanation, and none has an empty one, given that
  the text of a value that was read is not empty (true of a text column, where it is
  the field itself, and of a rendered number).
\<close>

theorem classifier_gets_no_missing_row:
  "load_errors parse str_of lines =
     map (\<lambda>(title, why).
            \<lparr>Passage_Title = title, Why_I_Got_It_Wrong = Some (str_of (parse why))\<rparr>)
       (filter (\<lambda>(title, why). why \<notin> set na_values) lines)
   \<and> [] \<in> set na_values
   \<and> (\<forall>r \<in> set (load_errors parse str_of lines). Why_I_Got_It_Wrong r \<noteq> None)
   \<and> ((\<forall>w. w \<notin> set na_values \<longrightarrow> str_of (parse w) \<noteq> []) \<longrightarrow>
        (\<forall>r \<in> set (load_errors parse str_of lines).
            \<exists>w. Why_I_Got_It_Wrong r = Some w \<and> w \<noteq> []))"
proof -
  have 3: "Why_I_Got_It_Wrong r \<noteq> None" if "r \<in> set (load_errors parse str_of lines)" for r
    using that unfolding load_errors_eq by auto
  have 4: "\<exists>w. Why_I_Got_It_Wrong r = Some w \<and> w \<noteq> []"
    if "\<forall>w. w \<notin> set na_values \<longrightarrow> str_of (parse w) \<noteq> []"
      and "r \<in> set (load_errors parse str_of lines)" for r
    using that unfolding load_errors_eq by auto
  from 3 4 load_errors_eq [of parse str_of lines] empty_is_na show ?thesis by blast
qed

theorem classifier_input_witness:
  "load_errors (\<lambda>w. w) (\<lambda>v. v) [(''P1'', ''wrong tone''), (''P2'', ''''), (''P3'', ''NaN'')] =
     [\<lparr>Passage_Title = ''P1'', Why_I_Got_It_Wrong = Some ''wrong tone''\<rparr>]
   \<and> list_all (\<lambda>r. \<exists>w. Why_I_Got_It_Wrong r = Some w \<and> w \<noteq> [])
       (load_errors (\<lambda>w. w) (\<lambda>v. v) [(''P1'', ''wrong tone''), (''P2'', ''''), (''P3'', ''NaN'')])"
proof -
  let ?lines = "[(''P1'', ''wrong tone''), (''P2'', ''''), (''P3'', ''NaN'')]"
  note t = classifier_gets_no_missing_row [of "\<lambda>w. w" "\<lambda>v. v" ?lines]
  have f: "filter (\<lambda>(title, why). why \<notin> set na_values) ?lines = [(''P1'', ''wrong tone'')]"
    by (simp add: na_values_def)
  have h: "\<forall>w. w \<notin> set na_values \<longrightarrow> (\<lambda>v. v) ((\<lambda>w. w) w) \<noteq> []"
    using empty_is_na by auto
  from t f have a: "load_errors (\<lambda>w. w) (\<lambda>v. v) ?lines =
      [\<lparr>Passage_Title = ''P1'', Why_I_Got_It_Wrong = Some ''wrong tone''\<rparr>]"
    by simp
  from t h have "\<forall>r \<in> set (load_errors (\<lambda>w. w) (\<lambda>v. v) ?lines).
      \<exists>w. Why_I_Got_It_Wrong r = Some w \<and> w \<noteq> []"
    by blast
  then have b: "list_all (\<lambda>r. \<exists>w. Why_I_Got_It_Wrong r = Some w \<and> w \<noteq> [])
      (load_errors (\<lambda>w. w) (\<lambda>v. v) ?lines)"
    by (simp add: list_all_iff)
  from a b show ?thesis by (rule conjI)
qed

text \<open>
  C6. The code splits the generated text at every marker and takes the second part as
  the answer section. On the text \<open>P\<close>, marker, \<open>A\<close>, marker, \<open>B\<close> the passage section
  is \<open>P\<close> and the answer section is \<open>A\<close>: the text after the marker, which the answer
  section is to be, is \<open>A\<close>, marker, \<open>B\<close>, and its part from the second marker on is
  dropped.
\<close>

theorem second_marker_drops_rest:
  "parse_content (''P'' @ marker @ ''A'' @ marker @ ''B'') = Some (''P'', ''A'')
   \<and> strip (''A'' @ marker @ ''B'') \<noteq> ''A''"
  by code_simp

section \<open>Properties of the session operations\<close>

lemma get_or_generate_content_fields:
  assumes "get_or_generate_content gpt k s = (r, s')"
  shows "reveals s' = reveals s" and "chats s' = chats s"
    and "passages s k' = Some c \<Longrightarrow> passages s' k' = Some c"
  using assms
  by (auto simp: get_or_generate_content_def generate_cars_content_def
           split: option.splits sum.splits prod.splits)

lemma get_or_generate_content_cached:
  "passages s k = Some c \<Longrightarrow> get_or_generate_content gpt k s = (Inr c, s)"
  by (simp add: get_or_generate_content_def)

lemma request_assistant_turn_fields:
  assumes "request_assistant_turn gpt k s = (r, s')"
  shows "reveals s' = reveals s" and "passages s' = passages s"
  using assms
  by (auto simp: request_assistant_turn_def generate_cars_content_def Let_def
           split: option.splits sum.splits prod.splits)

lemma append_user_turn_fields:
  assumes "append_user_turn k p s = Inr s'"
  shows "reveals s' = reveals s" and "passages s' = passages s" and "requests s' = requests s"
  using assms by (auto simp: append_user_turn_def split: option.splits)

lemma init_chat_fields:
  "reveals (init_chat k s) = reveals s" "passages (init_chat k s) = passages s"
  by (auto simp: init_chat_def split: option.splits)

lemma reveal_section_passages: "passages (reveal_section k inp s) = passages s"
  by (auto simp: reveal_section_def init_reveal_def reveal_answers_def Let_def
           split: option.splits)

lemma reveal_section_revealed:
  "is_revealed k (reveal_section k' inp s) \<longleftrightarrow>
     is_revealed k s \<or> (k = k' \<and> button_clicked inp)"
  by (auto simp: reveal_section_def init_reveal_def reveal_answers_def is_revealed_def Let_def
           split: option.splits)

lemma chat_section_fields:
  assumes "chat_section gpt k inp s = (r, s')"
  shows "reveals s' = reveals s" and "passages s' = passages s"
proof -
  have "reveals s' = reveals s \<and> passages s' = passages s"
  proof (cases "\<exists>p. chat_input inp = Some p \<and> p \<noteq> []")
    case False
    with assms show ?thesis
      by (auto simp: chat_section_def Let_def init_chat_fields split: option.splits)
  next
    case True
    then obtain p where p: "chat_input inp = Some p" "p \<noteq> []" by blast
    show ?thesis
    proof (cases "append_user_turn k p (init_chat k s)")
      case (Inl e)
      with assms p have "s' = init_chat k s" by (simp add: chat_section_def Let_def)
      then show ?thesis by (simp add: init_chat_fields)
    next
      case (Inr s2)
      obtain r3 s3 where q: "request_assistant_turn gpt k s2 = (r3, s3)" by force
      from assms p Inr q have "s' = s3"
        by (auto simp: chat_section_def Let_def split: sum.splits)
      then show ?thesis
        using request_assistant_turn_fields [OF q] append_user_turn_fields [OF Inr]
        by (simp add: init_chat_fields)
    qed
  qed
  then show "reveals s' = reveals s" and "passages s' = passages s" by simp_all
qed

lemma parse_content_total: "\<exists>p a. parse_content s = Some (p, a)"
  using split_from_nonempty [of marker "[]" s]
  by (auto simp: parse_content_def split_str_def split: list.splits)

lemma render_unit_passages:
  assumes "passages s k = Some c"
  shows "passages (snd (render_unit gpt k' inp s)) k = Some c"
proof -
  obtain r s1 where g: "get_or_generate_content gpt k' s = (r, s1)" by force
  from assms have p1: "passages s1 k = Some c"
    by (rule get_or_generate_content_fields(3) [OF g])
  show ?thesis
  proof (cases r)
    case (Inl e)
    with g p1 show ?thesis by (simp add: render_unit_def)
  next
    case (Inr full_text)
    obtain p a where pc: "parse_content full_text = Some (p, a)"
      using parse_content_total by blast
    obtain r3 s3 where ch: "chat_section gpt k' inp (reveal_section k' inp s1) = (r3, s3)"
      by force
    have "passages s3 k = Some c"
      using chat_section_fields(2) [OF ch] p1 by (simp add: reveal_section_passages)
    moreover have "snd (render_unit gpt k' inp s) = s3"
      using g Inr pc ch by (cases r3) (simp_all add: render_unit_def Let_def)
    ultimately show ?thesis by simp
  qed
qed

lemma render_unit_revealed:
  "is_revealed k (snd (render_unit gpt k' inp s)) \<longleftrightarrow>
     is_revealed k s \<or>
     (k = k' \<and> button_clicked inp \<and> (\<exists>e. fst (get_or_generate_content gpt k' s) = Inr e))"
proof -
  obtain r s1 where g: "get_or_generate_content gpt k' s = (r, s1)" by force
  have r1: "is_revealed k s1 = is_revealed k s"
    using get_or_generate_content_fields(1) [OF g] by (simp add: is_revealed_def)
  show ?thesis
  proof (cases r)
    case (Inl e)
    with g r1 show ?thesis by (simp add: render_unit_def)
  next
    case (Inr full_text)
    obtain p a where pc: "parse_content full_text = Some (p, a)"
      using parse_content_total by blast
    obtain r3 s3 where ch: "chat_section gpt k' inp (reveal_section k' inp s1) = (r3, s3)"
      by force
    have "is_revealed k s3 = is_revealed k (reveal_section k' inp s1)"
      using chat_section_fields(1) [OF ch] by (simp add: is_revealed_def)
    moreover have "snd (render_unit gpt k' inp s) = s3"
      using g Inr pc ch by (cases r3) (simp_all add: render_unit_def Let_def)
    ultimately show ?thesis using g Inr r1 by (simp add: reveal_section_revealed)
  qed
qed

lemma run_renders_passages:
  "passages s k = Some c \<Longrightarrow> passages (run_renders gpt evs s) k = Some c"
proof (induction evs arbitrary: s)
  case Nil
  then show ?case by simp
next
  case (Cons ev evs)
  obtain k' inp where ev: "ev = (k', inp)" by (cases ev)
  show ?case unfolding ev run_renders.simps
    by (rule Cons.IH) (rule render_unit_passages [OF Cons.prems])
qed

lemma run_renders_stays_revealed:
  "is_revealed k s \<Longrightarrow> is_revealed k (run_renders gpt evs s)"
proof (induction evs arbitrary: s)
  case Nil
  then show ?case by simp
next
  case (Cons ev evs)
  obtain k' inp where ev: "ev = (k', inp)" by (cases ev)
  show ?case unfolding ev run_renders.simps
    by (rule Cons.IH) (simp add: render_unit_revealed Cons.prems)
qed

lemma run_renders_stays_hidden:
  "\<not> is_revealed k s \<Longrightarrow> \<forall>(k', inp) \<in> set evs. k' = k \<longrightarrow> \<not> button_clicked inp \<Longrightarrow>
   \<not> is_revealed k (run_renders gpt evs s)"
proof (induction evs arbitrary: s)
  case Nil
  then show ?case by simp
next
  case (Cons ev evs)
  obtain k' inp where ev: "ev = (k', inp)" by (cases ev)
  from Cons.prems ev have "\<not> is_revealed k (snd (render_unit gpt k' inp s))"
    by (auto simp: render_unit_revealed)
  moreover from Cons.prems have "\<forall>(k', inp) \<in> set evs. k' = k \<longrightarrow> \<not> button_clicked inp"
    by simp
  ultimately show ?case unfolding ev run_renders.simps by (rule Cons.IH)
qed

lemma last_items_snoc: "0 < n \<Longrightarrow> last (last_items n (xs @ [x])) = x"
  by (simp add: last_items_def)

lemma length_last_items: "length (last_items n xs) = min n (length xs)"
  by (simp add: last_items_def)


section \<open>Claims about the session\<close>

text \<open>
  C1. When the content of a unit is not yet stored and the generator succeeds, the first
  call of \<open>get_or_generate_content\<close> makes exactly one request to the generator (for the
  unit's category, without history) and stores the text. From then on, after any
  sequence of renderings of any units, the stored text is still the same, and a further
  call for the unit returns this text and leaves the state, the list of requests
  included, as it is: no second request is made, however many calls follow.
\<close>

theorem content_generated_once:
  assumes "passages s k = None" and "get_or_generate_content gpt k s = (Inr text, s1)"
  shows "requests s1 = requests s @ [(fst k, None)]
     \<and> passages s1 k = Some text
     \<and> (\<forall>evs. passages (run_renders gpt evs s1) k = Some text
            \<and> get_or_generate_content gpt k (run_renders gpt evs s1) =
                (Inr text, run_renders gpt evs s1))
     \<and> (\<forall>n. ((\<lambda>s. snd (get_or_generate_content gpt k s)) ^^ n) s1 = s1)"
proof -
  from assms have r: "requests s1 = requests s @ [(fst k, None)]"
    and p: "passages s1 k = Some text"
    by (auto simp: get_or_generate_content_def generate_cars_content_def split: sum.splits)
  have e: "passages (run_renders gpt evs s1) k = Some text" for evs
    using p by (rule run_renders_passages)
  have g: "get_or_generate_content gpt k (run_renders gpt evs s1) =
      (Inr text, run_renders gpt evs s1)" for evs
    using e by (rule get_or_generate_content_cached)
  have "((\<lambda>s. snd (get_or_generate_content gpt k s)) ^^ n) s1 = s1" for n
    by (induction n) (simp_all add: get_or_generate_content_cached [OF p])
  with r p e g show ?thesis by blast
qed

theorem content_generated_once_witness:
  "requests (snd (get_or_generate_content demo_gpt demo_unit empty_session)) =
     [(''Tone/Attitude'', None)]
   \<and> (\<forall>evs. get_or_generate_content demo_gpt demo_unit
               (run_renders demo_gpt evs
                  (snd (get_or_generate_content demo_gpt demo_unit empty_session))) =
             (Inr ''passage'',
              run_renders demo_gpt evs
                (snd (get_or_generate_content demo_gpt demo_unit empty_session))))"
proof -
  obtain s1 where g: "get_or_generate_content demo_gpt demo_unit empty_session = (Inr ''passage'', s1)"
    by (simp add: get_or_generate_content_def generate_cars_content_def demo_gpt_def
          empty_session_def)
  have n: "passages empty_session demo_unit = None" by (simp add: empty_session_def)
  have r: "requests empty_session = []" by (simp add: empty_session_def)
  have u: "fst demo_unit = ''Tone/Attitude''" by (simp add: demo_unit_def)
  from content_generated_once [OF n g] show ?thesis
    by (simp add: g r u)
qed

text \<open>
  C4. When the request for the assistant's turn fails, nothing is appended: the chats
  after the failed call are the chats right after the user's turn was appended, so the
  unit's transcript is the earlier transcript followed by the user's entry, which stays
  last. The same holds for the chat section of a rendering as a whole: when it ends with
  a failed request, the transcript is the one before the rendering (empty for a new
  unit) followed by the user's entry.
\<close>

theorem failed_request_keeps_user_turn:
  "(append_user_turn k p s = Inr s1 \<and> request_assistant_turn gpt k s1 = (Inl e, s2) \<longrightarrow>
      chats s2 = chats s1
      \<and> (\<exists>t. chats s k = Some t \<and> chats s2 k = Some (t @ [\<lparr>role = ''user'', content = p\<rparr>])))
   \<and> (chat_input inp = Some p \<and> chat_section gpt k inp s = (Inr (GptFailed e), s') \<longrightarrow>
      chats s' k =
        Some ((case chats s k of None \<Rightarrow> [] | Some t \<Rightarrow> t) @ [\<lparr>role = ''user'', content = p\<rparr>]))"
proof -
  have a: "chats s2 = chats s1" if "request_assistant_turn gpt k s1 = (Inl e, s2)"
    for s1 s2 :: session_state and e
    using that
    by (auto simp: request_assistant_turn_def generate_cars_content_def Let_def
             split: option.splits sum.splits)
  have b: "\<exists>t. chats s k = Some t \<and> chats s1 k = Some (t @ [\<lparr>role = ''user'', content = p\<rparr>])"
    if "append_user_turn k p s = Inr s1" for s s1 :: session_state
    using that by (auto simp: append_user_turn_def split: option.splits)
  have c: "chats s' k =
        Some ((case chats s k of None \<Rightarrow> [] | Some t \<Rightarrow> t) @ [\<lparr>role = ''user'', content = p\<rparr>])"
    if i: "chat_input inp = Some p" and f: "chat_section gpt k inp s = (Inr (GptFailed e), s')"
  proof -
    from i f have ne: "p \<noteq> []" by (auto simp: chat_section_def Let_def)
    from i f ne obtain s2 where u: "append_user_turn k p (init_chat k s) = Inr s2"
      by (cases "append_user_turn k p (init_chat k s)") (auto simp: chat_section_def Let_def)
    obtain r3 s3 where q3: "request_assistant_turn gpt k s2 = (r3, s3)" by force
    from i f ne u q3 have q: "request_assistant_turn gpt k s2 = (Inl e, s')"
      by (cases r3) (auto simp: chat_section_def Let_def)
    from b [OF u] obtain t where t: "chats (init_chat k s) k = Some t"
      and t2: "chats s2 k = Some (t @ [\<lparr>role = ''user'', content = p\<rparr>])" by blast
    from t have "t = (case chats s k of None \<Rightarrow> [] | Some t \<Rightarrow> t)"
      by (auto simp: init_chat_def split: option.splits)
    with a [OF q] t2 show ?thesis by simp
  qed
  from a b c show ?thesis by (metis (no_types, lifting))
qed

theorem failed_request_witness:
  "chats (snd (chat_section failing_gpt demo_unit
                 \<lparr>button_clicked = False, chat_input = Some ''why B?''\<rparr> demo_session)) demo_unit =
     Some [\<lparr>role = ''user'', content = ''why B?''\<rparr>]"
proof -
  let ?inp = "\<lparr>button_clicked = False, chat_input = Some ''why B?''\<rparr>"
  obtain s2 where f: "chat_section failing_gpt demo_unit ?inp demo_session =
      (Inr (GptFailed (GenerationError ''timeout'')), s2)"
    by (simp add: chat_section_def init_chat_def append_user_turn_def request_assistant_turn_def
          generate_cars_content_def failing_gpt_def demo_session_def Let_def)
  have i: "chat_input ?inp = Some ''why B?''" by simp
  from failed_request_keeps_user_turn
    [where k = demo_unit and p = "''why B?''" and s = demo_session and gpt = failing_gpt
       and inp = ?inp and s' = s2 and e = "GenerationError ''timeout''"] i f
  show ?thesis by (simp add: demo_session_def)
qed

text \<open>
  C7. In a new session no unit is revealed. A unit that is not revealed stays so over
  any sequence of renderings in which its button is not pressed. Setting the flag
  reveals the unit, and so does a rendering of a unit with stored content in which the
  button is pressed. A revealed unit stays revealed over every sequence of renderings,
  whatever the inputs: nothing sets the flag back.
\<close>

theorem reveal_monotonic:
  "\<not> is_revealed k empty_session
   \<and> (\<not> is_revealed k s \<and> (\<forall>(k', inp) \<in> set evs. k' = k \<longrightarrow> \<not> button_clicked inp) \<longrightarrow>
        \<not> is_revealed k (run_renders gpt evs s))
   \<and> is_revealed k (reveal_answers k s)
   \<and> (passages s k = Some c \<and> button_clicked inp \<longrightarrow>
        is_revealed k (snd (render_unit gpt k inp s)))
   \<and> (is_revealed k s \<longrightarrow> is_revealed k (run_renders gpt evs s))"
proof -
  have 1: "\<not> is_revealed k empty_session"
    by (simp add: is_revealed_def empty_session_def)
  have 3: "is_revealed k (reveal_answers k s)"
    by (simp add: is_revealed_def reveal_answers_def)
  have 4: "is_revealed k (snd (render_unit gpt k inp s))"
    if "passages s k = Some c" "button_clicked inp"
    using that by (simp add: render_unit_revealed get_or_generate_content_cached)
  from 1 3 4 run_renders_stays_hidden [of k s evs gpt] run_renders_stays_revealed [of k s gpt evs]
  show ?thesis by blast
qed

theorem reveal_monotonic_witness:
  "\<not> is_revealed demo_unit
       (run_renders demo_gpt
          [(demo_unit, \<lparr>button_clicked = False, chat_input = Some ''why B?''\<rparr>)] empty_session)
   \<and> is_revealed demo_unit
       (snd (render_unit demo_gpt demo_unit
               \<lparr>button_clicked = True, chat_input = None\<rparr> demo_session))
   \<and> is_revealed demo_unit
       (run_renders demo_gpt
          [(demo_unit, \<lparr>button_clicked = True, chat_input = None\<rparr>),
           (demo_unit, \<lparr>button_clicked = False, chat_input = Some ''why B?''\<rparr>)]
          (reveal_answers demo_unit demo_session))"
proof -
  let ?a = "\<lparr>button_clicked = False, chat_input = Some ''why B?''\<rparr>"
  let ?b = "\<lparr>button_clicked = True, chat_input = None\<rparr>"
  note t1 = reveal_monotonic
    [where k = demo_unit and s = empty_session and evs = "[(demo_unit, ?a)]" and gpt = demo_gpt]
  note t2 = reveal_monotonic
    [where k = demo_unit and s = demo_session and c = "''passage''" and inp = ?b
       and gpt = demo_gpt]
  note t3 = reveal_monotonic
    [where k = demo_unit and s = "reveal_answers demo_unit demo_session"
       and evs = "[(demo_unit, ?b), (demo_unit, ?a)]" and gpt = demo_gpt]
  have h1: "\<forall>(k', inp) \<in> set [(demo_unit, ?a)]. k' = demo_unit \<longrightarrow> \<not> button_clicked inp"
    by simp
  have h2: "passages demo_session demo_unit = Some ''passage''" by (simp add: demo_session_def)
  have h3: "is_revealed demo_unit (reveal_answers demo_unit demo_session)"
    by (simp add: is_revealed_def reveal_answers_def)
  from t1 h1 have c1: "\<not> is_revealed demo_unit (run_renders demo_gpt [(demo_unit, ?a)] empty_session)"
    by blast
  from t2 h2 have c2: "is_revealed demo_unit (snd (render_unit demo_gpt demo_unit ?b demo_session))"
    by simp
  from t3 h3 have c3: "is_revealed demo_unit
       (run_renders demo_gpt [(demo_unit, ?b), (demo_unit, ?a)]
          (reveal_answers demo_unit demo_session))"
    by blast
  from c1 c2 c3 show ?thesis by blast
qed

text \<open>
  C9. For a unit with stored content \<open>c\<close> and transcript \<open>t\<close>, a request for the
  assistant's turn makes exactly one call of the generator, for the unit's category,
  with the history made of one assistant entry holding \<open>c\<close> followed by the last five
  entries of \<open>t\<close> (all of \<open>t\<close> when it has fewer). When the user's turn has just been
  appended, it is the last entry of this history. When the generator returns a reply,
  the request returns this reply and the transcript becomes \<open>t\<close> followed by one
  assistant entry holding it.
\<close>

theorem assistant_turn_history_and_reply:
  assumes "passages s k = Some c" and "chats s k = Some t"
  shows "requests (snd (request_assistant_turn gpt k s)) =
           requests s @ [(fst k, Some (\<lparr>role = ''assistant'', content = c\<rparr> # last_items 5 t))]
     \<and> suffix (last_items 5 t) t
     \<and> length (last_items 5 t) = min 5 (length t)
     \<and> (\<forall>s0 p. append_user_turn k p s0 = Inr s \<longrightarrow>
          last (last_items 5 t) = \<lparr>role = ''user'', content = p\<rparr>)
     \<and> (\<forall>reply.
          gpt (length (requests s)) (fst k)
              (Some (\<lparr>role = ''assistant'', content = c\<rparr> # last_items 5 t)) = Inr reply \<longrightarrow>
          request_assistant_turn gpt k s =
            (Inr reply,
             s\<lparr>requests :=
                  requests s @ [(fst k, Some (\<lparr>role = ''assistant'', content = c\<rparr> # last_items 5 t))],
               chats := (chats s)(k \<mapsto> t @ [\<lparr>role = ''assistant'', content = reply\<rparr>])\<rparr>))"
proof -
  let ?h = "\<lparr>role = ''assistant'', content = c\<rparr> # last_items 5 t"
  have 1: "requests (snd (request_assistant_turn gpt k s)) = requests s @ [(fst k, Some ?h)]"
    using assms
    by (auto simp: request_assistant_turn_def generate_cars_content_def Let_def
             split: sum.splits)
  have 2: "suffix (last_items 5 t) t"
    unfolding last_items_def by (rule suffix_drop)
  have 3: "length (last_items 5 t) = min 5 (length t)"
    by (rule length_last_items)
  have 4: "last (last_items 5 t) = \<lparr>role = ''user'', content = p\<rparr>"
    if "append_user_turn k p s0 = Inr s" for s0 p
  proof -
    from that assms(2) obtain t0 where "t = t0 @ [\<lparr>role = ''user'', content = p\<rparr>]"
      by (auto simp: append_user_turn_def split: option.splits)
    then show ?thesis by (simp add: last_items_snoc)
  qed
  have 5: "request_assistant_turn gpt k s =
        (Inr reply,
         s\<lparr>requests := requests s @ [(fst k, Some ?h)],
           chats := (chats s)(k \<mapsto> t @ [\<lparr>role = ''assistant'', content = reply\<rparr>])\<rparr>)"
    if "gpt (length (requests s)) (fst k) (Some ?h) = Inr reply" for reply
    using assms that
    by (simp add: request_assistant_turn_def generate_cars_content_def Let_def)
  from 1 2 3 4 5 show ?thesis by blast
qed

theorem assistant_turn_witness:
  "request_assistant_turn demo_gpt demo_unit
     (demo_session\<lparr>chats := [demo_unit \<mapsto> [\<lparr>role = ''user'', content = ''why B?''\<rparr>]]\<rparr>) =
   (Inr ''reply'',
    demo_session
      \<lparr>requests :=
         [(''Tone/Attitude'', None),
          (''Tone/Attitude'',
           Some [\<lparr>role = ''assistant'', content = ''passage''\<rparr>,
                 \<lparr>role = ''user'', content = ''why B?''\<rparr>])],
       chats :=
         [demo_unit \<mapsto> [\<lparr>role = ''user'', content = ''why B?''\<rparr>,
                       \<lparr>role = ''assistant'', content = ''reply''\<rparr>]]\<rparr>)"
proof -
  let ?s = "demo_session\<lparr>chats := [demo_unit \<mapsto> [\<lparr>role = ''user'', content = ''why B?''\<rparr>]]\<rparr>"
  have p: "passages ?s demo_unit = Some ''passage''" by (simp add: demo_session_def)
  have c: "chats ?s demo_unit = Some [\<lparr>role = ''user'', content = ''why B?''\<rparr>]" by simp
  from assistant_turn_history_and_reply [OF p c, of demo_gpt]
  show ?thesis
    by (simp add: demo_gpt_def last_items_def demo_session_def demo_unit_def)
qed


end
